theory Spec2Isabelle
  imports Main "HOL-Library.Word"
begin

section \<open>Values, errors and the host's command log\<close>

text \<open>
  The Python values that reach the functions of \<^verbatim>\<open>sim/utils.py\<close>. Only the dynamic
  type of a value is ever inspected (\<^verbatim>\<open>is None\<close>, \<^verbatim>\<open>isinstance\<close>, \<^verbatim>\<open>len\<close>), so a float is
  carried as its 64-bit pattern and every type the code has no branch for is \<open>PyOther\<close>.
\<close>

datatype py_value =
    PyNone
  | PyBool bool
  | PyInt int
  | PyFloat "64 word"
  | PyStr string
  | PyTuple "py_value list"
  | PyList "py_value list"
  | PyOther

text \<open>
  Exceptions are values: \<open>py_error\<close> has the exceptions the code raises itself, with
  their messages. A call of a wrapper ends with \<open>Raised\<close> for one of those, or with
  \<open>Propagated e\<close> for an exception \<open>e\<close> raised inside the decorated function (or the
  per-prim operation), which the wrappers do not catch.
\<close>

datatype py_error =
    ValueError string
  | RuntimeError string
  | TypeError string
  | NotImplementedError string
  | IndexError

datatype 'e exn = Raised py_error | Propagated 'e

abbreviation quote :: "string \<Rightarrow> string" where
  "quote s \<equiv> CHR 0x27 # s @ [CHR 0x27]"

section \<open>Attribute setters\<close>

text \<open>
  A schema object offers a method \<^verbatim>\<open>Create<Name>Attr\<close> for some names (\<open>creators\<close>);
  \<open>authored\<close> holds the values set through them. \<^verbatim>\<open>to_camel_case\<close> lives in
  \<^verbatim>\<open>omni.isaac.orbit.utils.string\<close>, outside the files at hand, and is a parameter.
\<close>

record usd_schema =
  schema_path :: string
  creators :: "string \<Rightarrow> bool"
  authored :: "string \<rightharpoonup> py_value"

record 'x setter_world =
  carb_errors :: "string list"
  target :: 'x

definition safe_set_attribute_on_usd_schema ::
  "(string \<Rightarrow> string \<Rightarrow> string) \<Rightarrow> string \<Rightarrow> py_value \<Rightarrow> bool \<Rightarrow>
   usd_schema setter_world \<Rightarrow> (py_error + unit) \<times> usd_schema setter_world" where
  "safe_set_attribute_on_usd_schema to_camel_case name val camel_case w =
     (if val = PyNone then (Inr (), w)
      else
        let attr_name = (if camel_case then to_camel_case name ''CC'' else name);
            schema_api = target w
        in if creators schema_api attr_name
           then (Inr (), w\<lparr>target := schema_api\<lparr>authored := (authored schema_api)(attr_name \<mapsto> val)\<rparr>\<rparr>)
           else
             let msg = ''Attribute '' @ quote attr_name @ '' does not exist on prim ''
                         @ quote (schema_path schema_api) @ ''.''
             in (Inl (TypeError msg), w\<lparr>carb_errors := carb_errors w @ [msg]\<rparr>))"

datatype sdf_type = SdfBool | SdfInt | SdfFloat | SdfFloat3 | SdfFloat2

fun is_float :: "py_value \<Rightarrow> bool" where
  "is_float (PyFloat _) = True"
| "is_float _ = False"

text \<open>The \<^verbatim>\<open>isinstance\<close> chain of \<^verbatim>\<open>safe_set_attribute_on_usd_prim\<close>, in the source's order.\<close>

fun resolve_sdf_type :: "py_value \<Rightarrow> sdf_type option" where
  "resolve_sdf_type (PyBool _) = Some SdfBool"
| "resolve_sdf_type (PyInt _) = Some SdfInt"
| "resolve_sdf_type (PyFloat _) = Some SdfFloat"
| "resolve_sdf_type (PyTuple vs) =
     (if length vs = 3 \<and> list_ex is_float vs then Some SdfFloat3
      else if length vs = 2 \<and> list_ex is_float vs then Some SdfFloat2
      else None)"
| "resolve_sdf_type (PyList vs) =
     (if length vs = 3 \<and> list_ex is_float vs then Some SdfFloat3
      else if length vs = 2 \<and> list_ex is_float vs then Some SdfFloat2
      else None)"
| "resolve_sdf_type _ = None"

text \<open>
  One executed \<^verbatim>\<open>ChangePropertyCommand\<close>: property path, value, type to create.
  \<open>py_str\<close>, a parameter of the setter, is how Python prints a value in a message.
\<close>

datatype change_property = ChangePropertyCommand string py_value sdf_type

record usd_prim_handle =
  prim_handle_path :: string
  commands :: "change_property list"

definition safe_set_attribute_on_usd_prim ::
  "(string \<Rightarrow> string \<Rightarrow> string) \<Rightarrow> (py_value \<Rightarrow> string) \<Rightarrow> string \<Rightarrow> py_value \<Rightarrow> bool \<Rightarrow>
   usd_prim_handle setter_world \<Rightarrow> (py_error + unit) \<times> usd_prim_handle setter_world" where
  "safe_set_attribute_on_usd_prim to_camel_case py_str attr_name0 val camel_case w =
     (if val = PyNone then (Inr (), w)
      else
        let attr_name = (if camel_case then to_camel_case attr_name0 ''cC'' else attr_name0);
            prim = target w
        in case resolve_sdf_type val of
             None \<Rightarrow>
               (Inl (NotImplementedError (''Cannot set attribute '' @ quote attr_name
                       @ '' with value '' @ quote (py_str val)
                       @ ''. Please modify the code to support this type.'')), w)
           | Some sdf \<Rightarrow>
               (Inr (), w\<lparr>target := prim\<lparr>commands := commands prim @
                  [ChangePropertyCommand (prim_handle_path prim @ ''.'' @ attr_name) val sdf]\<rparr>\<rparr>))"

section \<open>The Subtree Applier: \<^verbatim>\<open>apply_nested\<close>\<close>

text \<open>
  A prim of the stage: its path string, whether it is an instance, and its children in
  the order \<^verbatim>\<open>GetChildren()\<close> returns them. The stage is read through
  \<^verbatim>\<open>GetPrimAtPath\<close>, a function from paths to prims where \<open>None\<close> is an invalid prim.
  The per-prim operation edits attributes and bindings of the host, carried as the opaque
  \<open>world\<close>; the hierarchy under the root is the one found when the call starts.
\<close>

datatype prim = Prim (pathString: string) (IsInstance: bool) (GetChildren: "prim list")

text \<open>
  What can be observed of one run: every prim taken from the queue, with the answer of
  \<^verbatim>\<open>IsInstance()\<close>, and every call of the operation, with what it returned or raised.
\<close>

datatype 'e walk_event = Dequeued string bool | Called string "'e + bool"

text \<open>
  The one \<^verbatim>\<open>carb.log_warn\<close> of the wrapper: the name of the function, the prim path
  given, and the list of instanced prim paths printed in the message.
\<close>

datatype carb_warning = CouldNotPerform string string "string list"

text \<open>
  The local variables of the wrapper (\<open>all_prims\<close>, \<open>count_success\<close>,
  \<open>instanced_prim_paths\<close>), the host state, the exception in flight if the operation
  raised, and the two logs.
\<close>

record ('s, 'e) loop_state =
  all_prims :: "prim list"
  count_success :: nat
  instanced_prim_paths :: "string list"
  world :: 's
  raised :: "'e option"
  events :: "'e walk_event list"
  warnings :: "carb_warning list"

fun subtree_prims :: "prim \<Rightarrow> prim list" where
  "subtree_prims (Prim p i cs) = Prim p i cs # concat (map subtree_prims cs)"

fun subtree_paths :: "prim \<Rightarrow> string list" where
  "subtree_paths (Prim p i cs) = p # concat (map subtree_paths cs)"

definition descendant_paths :: "prim \<Rightarrow> string list" where
  "descendant_paths n = concat (map subtree_paths (GetChildren n))"

definition pending_paths :: "prim list \<Rightarrow> string list" where
  "pending_paths q = concat (map subtree_paths q)"

text \<open>
  One iteration of \<^verbatim>\<open>while len(all_prims) > 0\<close>: \<^verbatim>\<open>pop(0)\<close>, the instance test with
  its \<^verbatim>\<open>continue\<close>, the call of \<open>func\<close>, and either the children appended to the
  queue or the success counted.
\<close>

definition step ::
  "(string \<Rightarrow> 's \<Rightarrow> ('e + bool) \<times> 's) \<Rightarrow> ('s, 'e) loop_state \<Rightarrow> ('s, 'e) loop_state" where
  "step func st =
     (case all_prims st of
        [] \<Rightarrow> st
      | child_prim # rest \<Rightarrow>
          let child_prim_path = pathString child_prim;
              st1 = st\<lparr>all_prims := rest,
                       events := events st @ [Dequeued child_prim_path (IsInstance child_prim)]\<rparr>
          in if IsInstance child_prim
             then st1\<lparr>instanced_prim_paths := instanced_prim_paths st1 @ [child_prim_path]\<rparr>
             else
               (case func child_prim_path (world st1) of
                  (Inl e, w) \<Rightarrow>
                    st1\<lparr>world := w, raised := Some e,
                        events := events st1 @ [Called child_prim_path (Inl e)]\<rparr>
                | (Inr success, w) \<Rightarrow>
                    let st2 = st1\<lparr>world := w,
                                  events := events st1 @ [Called child_prim_path (Inr success)]\<rparr>
                    in if \<not> success
                       then st2\<lparr>all_prims := all_prims st2 @ GetChildren child_prim\<rparr>
                       else st2\<lparr>count_success := count_success st2 + 1\<rparr>))"

text \<open>The loop ends: each iteration removes one prim from what can still be reached.\<close>

definition pending_size :: "('s, 'e) loop_state \<Rightarrow> nat" where
  "pending_size st = (if raised st = None then length (pending_paths (all_prims st)) else 0)"

lemma length_subtree_paths: "length (subtree_paths n) = Suc (length (descendant_paths n))"
  by (cases n) (simp add: descendant_paths_def)

lemma step_decreases:
  "all_prims st \<noteq> [] \<Longrightarrow> raised st = None \<Longrightarrow> pending_size (step func st) < pending_size st"
  by (cases "all_prims st")
     (auto simp: step_def pending_size_def pending_paths_def Let_def length_subtree_paths
         descendant_paths_def split: prod.splits sum.splits)

function walk ::
  "(string \<Rightarrow> 's \<Rightarrow> ('e + bool) \<times> 's) \<Rightarrow> ('s, 'e) loop_state \<Rightarrow> ('s, 'e) loop_state" where
  "walk func st =
     (if all_prims st = [] \<or> raised st \<noteq> None then st else walk func (step func st))"
  by pat_completeness auto
termination
  by (relation "measure (\<lambda>(func, st). pending_size st)") (auto simp: step_decreases)

declare walk.simps [simp del]

definition initial :: "prim list \<Rightarrow> 's \<Rightarrow> ('s, 'e) loop_state" where
  "initial q w = \<lparr>all_prims = q, count_success = 0, instanced_prim_paths = [], world = w,
                   raised = None, events = [], warnings = []\<rparr>"

text \<open>
  The wrapper. \<open>func_name\<close> is \<^verbatim>\<open>func.__name__\<close>; \<open>stage\<close> is the stage already
  chosen (the \<^verbatim>\<open>stage\<close> argument or the current stage). The result is how the call
  ended and the state it left behind.
\<close>

definition apply_nested ::
  "(string \<Rightarrow> 's \<Rightarrow> ('e + bool) \<times> 's) \<Rightarrow> string \<Rightarrow> (string \<Rightarrow> prim option) \<Rightarrow> string \<Rightarrow> 's \<Rightarrow>
   ('e exn + unit) \<times> ('s, 'e) loop_state" where
  "apply_nested func func_name stage prim_path w =
     (case stage prim_path of
        None \<Rightarrow> (Inl (Raised (ValueError (''Prim at path '' @ quote prim_path
                               @ '' is not valid.''))),
                 initial [] w)
      | Some prim \<Rightarrow>
          let fin = walk func (initial [prim] w)
          in (case raised fin of
                Some e \<Rightarrow> (Inl (Propagated e), fin)
              | None \<Rightarrow>
                  if count_success fin = 0
                  then (Inr (), fin\<lparr>warnings := warnings fin @
                          [CouldNotPerform func_name prim_path (instanced_prim_paths fin)]\<rparr>)
                  else (Inr (), fin)))"

text \<open>Readings of the event log.\<close>

fun popped :: "'e walk_event list \<Rightarrow> string list" where
  "popped [] = []"
| "popped (Dequeued p b # evs) = p # popped evs"
| "popped (Called p r # evs) = popped evs"

fun called :: "'e walk_event list \<Rightarrow> string list" where
  "called [] = []"
| "called (Dequeued p b # evs) = called evs"
| "called (Called p r # evs) = p # called evs"

fun skipped :: "'e walk_event list \<Rightarrow> string list" where
  "skipped [] = []"
| "skipped (Dequeued p b # evs) = (if b then p # skipped evs else skipped evs)"
| "skipped (Called p r # evs) = skipped evs"

fun succeeded :: "'e walk_event list \<Rightarrow> string list" where
  "succeeded [] = []"
| "succeeded (Dequeued p b # evs) = succeeded evs"
| "succeeded (Called p r # evs) = (if r = Inr True then p # succeeded evs else succeeded evs)"

text \<open>The four ways one iteration can go, and the loop invariants.\<close>

datatype ('s, 'e) step_kind = Skip | Raise 'e 's | Fail 's | Succeed 's

definition step_kind_of ::
  "(string \<Rightarrow> 's \<Rightarrow> ('e + bool) \<times> 's) \<Rightarrow> prim \<Rightarrow> 's \<Rightarrow> ('s, 'e) step_kind" where
  "step_kind_of func x w =
     (if IsInstance x then Skip
      else case func (pathString x) w of
             (Inl e, w') \<Rightarrow> Raise e w'
           | (Inr b, w') \<Rightarrow> if b then Succeed w' else Fail w')"

definition bookkeeping :: "('s, 'e) loop_state \<Rightarrow> bool" where
  "bookkeeping st \<longleftrightarrow>
     instanced_prim_paths st = skipped (events st)
     \<and> count_success st = length (succeeded (events st))"

definition touched :: "('s, 'e) loop_state \<Rightarrow> string set" where
  "touched st = set (popped (events st)) \<union> set (pending_paths (all_prims st))"

definition frontier_ok :: "prim \<Rightarrow> ('s, 'e) loop_state \<Rightarrow> bool" where
  "frontier_ok root st \<longleftrightarrow>
     distinct (pending_paths (all_prims st))
     \<and> set (popped (events st)) \<inter> set (pending_paths (all_prims st)) = {}
     \<and> set (all_prims st) \<subseteq> set (subtree_prims root)
     \<and> set (called (events st)) \<subseteq> set (popped (events st))"

definition faithful :: "prim \<Rightarrow> ('s, 'e) loop_state \<Rightarrow> bool" where
  "faithful root st \<longleftrightarrow>
     (\<forall>n \<in> set (subtree_prims root).
        (pathString n \<in> set (succeeded (events st)) \<longrightarrow>
           set (descendant_paths n) \<inter> touched st = {})
      \<and> (IsInstance n \<longrightarrow> pathString n \<notin> set (called (events st)))
      \<and> (IsInstance n \<longrightarrow> pathString n \<in> set (popped (events st)) \<longrightarrow>
           pathString n \<in> set (skipped (events st))
           \<and> set (descendant_paths n) \<inter> touched st = {}))"

text \<open>A small stage to run the wrapper on.\<close>

definition demo_root :: prim where
  "demo_root = Prim ''/A'' False
     [Prim ''/A/B'' False [Prim ''/A/B/C'' False []],
      Prim ''/A/D'' True [Prim ''/A/D/E'' False []]]"

definition demo_stage :: "string \<Rightarrow> prim option" where
  "demo_stage p = (if p = ''/A'' then Some demo_root else None)"

definition bind_on_B :: "string \<Rightarrow> nat \<Rightarrow> (unit + bool) \<times> nat" where
  "bind_on_B p w = (Inr (p = ''/A/B''), Suc w)"

definition bind_nowhere :: "string \<Rightarrow> nat \<Rightarrow> (unit + bool) \<times> nat" where
  "bind_nowhere p w = (Inr False, Suc w)"

section \<open>The Instance Fan-out: \<^verbatim>\<open>clone\<close>\<close>

text \<open>
  The configuration object. The wrapper asks \<^verbatim>\<open>hasattr\<close> for three of its fields, so each
  of them can be \<open>Missing\<close>; \<^verbatim>\<open>semantic_tags\<close> can also be present and \<^verbatim>\<open>None\<close>;
  \<^verbatim>\<open>activate_contact_sensors\<close> is tested with \<^verbatim>\<open>isinstance\<close> and can hold any value.
  \<^verbatim>\<open>copy_from_source\<close> is read without a test.
\<close>

datatype 'a attr = Missing | Present 'a

record spawner_cfg =
  visible :: "bool attr"
  semantic_tags :: "(string \<times> string) list option attr"
  activate_contact_sensors :: "py_value attr"
  copy_from_source :: bool

text \<open>
  The calls the wrapper makes into the host, in order: \<^verbatim>\<open>find_matching_prim_paths\<close>,
  the decorated function, \<^verbatim>\<open>set_prim_visibility\<close>, the semantics API,
  \<^verbatim>\<open>schemas.activate_contact_sensors\<close> and \<^verbatim>\<open>Cloner.clone\<close> with its source, its targets,
  \<^verbatim>\<open>replicate_physics\<close> and, when passed, \<^verbatim>\<open>copy_from_source\<close>. The answers of the
  host (\<open>find_matching_prim_paths\<close>, \<open>func\<close>) may depend on every call made before, so
  they take the log so far; \<open>isaac_major_version\<close> is \<^verbatim>\<open>int(get_version()[2])\<close>. Only
  the decorated function is taken to raise.
\<close>

datatype 'p host_call =
    FindMatchingPrimPaths string
  | Spawn string
  | SetPrimVisibility 'p bool
  | SemanticsApply 'p string
  | CreateSemanticTypeAttr 'p string
  | CreateSemanticDataAttr 'p string
  | SetSemanticTypeAttr 'p string string
  | SetSemanticDataAttr 'p string string
  | ActivateContactSensors string
  | ClonerClone string "string list" bool "bool option"

text \<open>
  The first statement of the wrapper splits \<^verbatim>\<open>prim_path\<close> once, from the right, at a
  slash, into \<^verbatim>\<open>root_path\<close> and \<^verbatim>\<open>asset_path\<close>; a path with no slash gives a list of
  one element, and the assignment to two names raises.
\<close>

definition rsplit_slash :: "string \<Rightarrow> (string \<times> string) option" where
  "rsplit_slash s =
     (if CHR ''/'' \<in> set s
      then Some (rev (tl (dropWhile (\<lambda>c. c \<noteq> CHR ''/'') (rev s))),
                 rev (takeWhile (\<lambda>c. c \<noteq> CHR ''/'') (rev s)))
      else None)"

text \<open>
  \<^verbatim>\<open>re.match\<close> of the pattern \<^verbatim>\<open>^[a-zA-Z0-9/_]+$\<close> on \<^verbatim>\<open>root_path\<close>. The class is
  \<open>is_path_char\<close>. The
  greedy \<^verbatim>\<open>+\<close> takes the longest run of class characters at the start; giving some back
  never helps, because \<^verbatim>\<open>$\<close> would then stand before a class character. Python's
  \<^verbatim>\<open>$\<close>, with no multi-line flag, matches at the end of the string and also just before
  a newline that ends the string (the documentation of \<^verbatim>\<open>re\<close> says so): that is
  \<open>at_dollar\<close> of what is left.
\<close>

definition is_path_char :: "char \<Rightarrow> bool" where
  "is_path_char c \<longleftrightarrow>
     (let k = (of_char c :: nat)
      in (of_char CHR ''a'' \<le> k \<and> k \<le> of_char CHR ''z'')
       \<or> (of_char CHR ''A'' \<le> k \<and> k \<le> of_char CHR ''Z'')
       \<or> (of_char CHR ''0'' \<le> k \<and> k \<le> of_char CHR ''9'')
       \<or> c = CHR ''/'' \<or> c = CHR ''_'')"

definition at_dollar :: "string \<Rightarrow> bool" where
  "at_dollar rest \<longleftrightarrow> rest = [] \<or> rest = [CHR 0x0A]"

definition re_match_prim_path :: "string \<Rightarrow> bool" where
  "re_match_prim_path s \<longleftrightarrow>
     takeWhile is_path_char s \<noteq> [] \<and> at_dollar (dropWhile is_path_char s)"

definition is_regex_expression :: "string \<Rightarrow> bool" where
  "is_regex_expression root_path \<longleftrightarrow> \<not> re_match_prim_path root_path"

text \<open>A string without one final newline: the part of it that \<^verbatim>\<open>$\<close> lets the class see.\<close>

definition chomp :: "string \<Rightarrow> string" where
  "chomp s = (if s \<noteq> [] \<and> last s = CHR 0x0A then butlast s else s)"

text \<open>\<^verbatim>\<open>s.replace(old, new)\<close> for one-character \<open>old\<close> and \<open>new\<close>.\<close>

primrec str_replace_char :: "char \<Rightarrow> char \<Rightarrow> string \<Rightarrow> string" where
  "str_replace_char old new [] = []"
| "str_replace_char old new (c # cs) =
     (if c = old then new else c) # str_replace_char old new cs"

text \<open>Lines 222 to 239: from the template path to the list \<open>prim_paths\<close>.\<close>

definition resolve_prim_paths ::
  "('p host_call list \<Rightarrow> string \<Rightarrow> string list) \<Rightarrow> string \<Rightarrow>
   (py_error + string list) \<times> 'p host_call list" where
  "resolve_prim_paths find_matching_prim_paths prim_path =
     (case rsplit_slash prim_path of
        None \<Rightarrow> (Inl (ValueError ''not enough values to unpack (expected 2, got 1)''), [])
      | Some (root_path, asset_path) \<Rightarrow>
          if is_regex_expression root_path \<and> root_path \<noteq> []
          then
            let source_prim_paths = find_matching_prim_paths [] root_path
            in if length source_prim_paths = 0
               then (Inl (RuntimeError (''Unable to find source prim path: '' @ quote root_path
                            @ ''. Please create the prim before spawning.'')),
                     [FindMatchingPrimPaths root_path])
               else (Inr (map (\<lambda>source_prim_path. source_prim_path @ ''/'' @ asset_path)
                            source_prim_paths),
                     [FindMatchingPrimPaths root_path])
          else (Inr [root_path @ ''/'' @ asset_path], []))"

text \<open>Lines 248 to 259: the calls made for the semantic tags.\<close>

fun set_semantic_tags :: "'p \<Rightarrow> (string \<times> string) list \<Rightarrow> 'p host_call list" where
  "set_semantic_tags prim [] = []"
| "set_semantic_tags prim ((semantic_type, semantic_value) # tags) =
     (let semantic_type_sanitized = str_replace_char CHR '' '' CHR ''_'' semantic_type;
          semantic_value_sanitized = str_replace_char CHR '' '' CHR ''_'' semantic_value;
          instance_name = semantic_type_sanitized @ ''_'' @ semantic_value_sanitized
      in [SemanticsApply prim instance_name,
          CreateSemanticTypeAttr prim instance_name,
          CreateSemanticDataAttr prim instance_name,
          SetSemanticTypeAttr prim instance_name semantic_type,
          SetSemanticDataAttr prim instance_name semantic_value]
         @ set_semantic_tags prim tags)"

text \<open>Lines 261 to 270: the contact sensors. \<open>p0\<close> is \<^verbatim>\<open>prim_paths[0]\<close>.\<close>

definition activate_sensors ::
  "('p host_call list \<Rightarrow> string \<Rightarrow> string list) \<Rightarrow> spawner_cfg \<Rightarrow> string \<Rightarrow>
   'p host_call list \<Rightarrow> (py_error + unit) \<times> 'p host_call list" where
  "activate_sensors find_matching_prim_paths cfg p0 tr =
     (case activate_contact_sensors cfg of
        Missing \<Rightarrow> (Inr (), tr)
      | Present (PyStr sub) \<Rightarrow>
          (let pat = p0 @ ''/'' @ sub;
               activate_paths = find_matching_prim_paths tr pat
           in (Inr (), tr @ [FindMatchingPrimPaths pat] @ map ActivateContactSensors activate_paths))
      | Present (PyBool b) \<Rightarrow>
          (let activate_paths = (if b then [p0] else [])
           in (Inr (), tr @ map ActivateContactSensors activate_paths))
      | Present _ \<Rightarrow> (Inl (ValueError []), tr))"

text \<open>The wrapper: how the call ended, and the calls it made.\<close>

definition clone ::
  "('p host_call list \<Rightarrow> string \<Rightarrow> string list) \<Rightarrow> ('p host_call list \<Rightarrow> string \<Rightarrow> 'e + 'p) \<Rightarrow>
   int \<Rightarrow> string \<Rightarrow> spawner_cfg \<Rightarrow> ('e exn + 'p) \<times> 'p host_call list" where
  "clone find_matching_prim_paths func isaac_major_version prim_path cfg =
     (case resolve_prim_paths find_matching_prim_paths prim_path of
        (Inl e, tr) \<Rightarrow> (Inl (Raised e), tr)
      | (Inr prim_paths, tr) \<Rightarrow>
          (case prim_paths of
             [] \<Rightarrow> (Inl (Raised IndexError), tr)
           | p0 # others \<Rightarrow>
               (case func tr p0 of
                  Inl e \<Rightarrow> (Inl (Propagated e), tr @ [Spawn p0])
                | Inr prim \<Rightarrow>
                    let tr1 = tr @ [Spawn p0];
                        tr2 = (case visible cfg of
                                 Present v \<Rightarrow> tr1 @ [SetPrimVisibility prim v]
                               | Missing \<Rightarrow> tr1);
                        tr3 = (case semantic_tags cfg of
                                 Present (Some tags) \<Rightarrow> tr2 @ set_semantic_tags prim tags
                               | _ \<Rightarrow> tr2)
                    in (case activate_sensors find_matching_prim_paths cfg p0 tr3 of
                          (Inl e, tr4) \<Rightarrow> (Inl (Raised e), tr4)
                        | (Inr u, tr4) \<Rightarrow>
                            (Inr prim,
                             if length prim_paths > 1
                             then (if isaac_major_version \<le> 2022
                                   then tr4 @ [ClonerClone p0 others False None]
                                   else tr4 @ [ClonerClone p0 others False
                                                 (Some (copy_from_source cfg))])
                             else tr4)))))"

text \<open>Readings of the call log.\<close>

fun spawned :: "'p host_call \<Rightarrow> string list" where
  "spawned (Spawn p) = [p]"
| "spawned _ = []"

fun cloned :: "'p host_call \<Rightarrow> (string \<times> string list) list" where
  "cloned (ClonerClone src targets rp cfs) = [(src, targets)]"
| "cloned _ = []"

fun semantic_key :: "'p host_call \<Rightarrow> string list" where
  "semantic_key (SemanticsApply prim instance_name) = [instance_name]"
| "semantic_key _ = []"

definition spawn_calls :: "'p host_call list \<Rightarrow> string list" where
  "spawn_calls tr = concat (map spawned tr)"

definition clone_calls :: "'p host_call list \<Rightarrow> (string \<times> string list) list" where
  "clone_calls tr = concat (map cloned tr)"

definition semantic_keys :: "'p host_call list \<Rightarrow> string list" where
  "semantic_keys tr = concat (map semantic_key tr)"

text \<open>The log after the spawn, the visibility and the tags, before the contact sensors.\<close>

definition post_spawn_trace ::
  "spawner_cfg \<Rightarrow> 'p \<Rightarrow> string \<Rightarrow> 'p host_call list \<Rightarrow> 'p host_call list" where
  "post_spawn_trace cfg prim p0 tr =
     (case semantic_tags cfg of
        Present (Some tags) \<Rightarrow>
          (case visible cfg of Present v \<Rightarrow> (tr @ [Spawn p0]) @ [SetPrimVisibility prim v]
                             | Missing \<Rightarrow> tr @ [Spawn p0]) @ set_semantic_tags prim tags
      | _ \<Rightarrow> (case visible cfg of Present v \<Rightarrow> (tr @ [Spawn p0]) @ [SetPrimVisibility prim v]
                                | Missing \<Rightarrow> tr @ [Spawn p0]))"

text \<open>Hosts and configurations to run the wrapper on. The spawned prim is named by its path.\<close>

definition three_tables :: "string host_call list \<Rightarrow> string \<Rightarrow> string list" where
  "three_tables tr pat =
     (if pat = ''/World/Table_[0-9]''
      then [''/World/Table_0'', ''/World/Table_1'', ''/World/Table_2'']
      else [])"

definition no_match :: "string host_call list \<Rightarrow> string \<Rightarrow> string list" where
  "no_match tr pat = []"

definition spawn_at :: "string host_call list \<Rightarrow> string \<Rightarrow> unit + string" where
  "spawn_at tr p = Inr p"

definition bottle_cfg :: spawner_cfg where
  "bottle_cfg = \<lparr>visible = Present True,
                  semantic_tags = Present (Some [(''object type'', ''soda can'')]),
                  activate_contact_sensors = Present (PyBool True),
                  copy_from_source = True\<rparr>"

definition plain_cfg :: spawner_cfg where
  "plain_cfg = \<lparr>visible = Missing, semantic_tags = Missing,
                 activate_contact_sensors = Missing, copy_from_source = True\<rparr>"

definition bad_selector_cfg :: spawner_cfg where
  "bad_selector_cfg = \<lparr>visible = Missing, semantic_tags = Missing,
                        activate_contact_sensors = Present (PyInt 1),
                        copy_from_source = True\<rparr>"

section \<open>Facts about the model\<close>

subsection \<open>Facts about the Subtree Applier\<close>

lemma popped_append [simp]: "popped (xs @ ys) = popped xs @ popped ys"
  by (induction xs rule: popped.induct) auto
lemma called_append [simp]: "called (xs @ ys) = called xs @ called ys"
  by (induction xs rule: called.induct) auto
lemma skipped_append [simp]: "skipped (xs @ ys) = skipped xs @ skipped ys"
  by (induction xs rule: skipped.induct) auto
lemma succeeded_append [simp]: "succeeded (xs @ ys) = succeeded xs @ succeeded ys"
  by (induction xs rule: succeeded.induct) auto

lemma popped_iff: "p \<in> set (popped evs) \<longleftrightarrow> (\<exists>b. Dequeued p b \<in> set evs)"
  by (induction evs rule: popped.induct) auto
lemma called_iff: "p \<in> set (called evs) \<longleftrightarrow> (\<exists>r. Called p r \<in> set evs)"
  by (induction evs rule: called.induct) auto
lemma skipped_iff: "p \<in> set (skipped evs) \<longleftrightarrow> Dequeued p True \<in> set evs"
  by (induction evs rule: skipped.induct) auto
lemma succeeded_iff: "p \<in> set (succeeded evs) \<longleftrightarrow> Called p (Inr True) \<in> set evs"
  by (induction evs rule: succeeded.induct) auto

text \<open>
  The invariant rule of the loop: what holds before the loop and is kept by every
  iteration that the loop really runs holds when the loop has ended.
\<close>

lemma walk_invariant:
  assumes "I st"
    and "\<And>s. I s \<Longrightarrow> all_prims s \<noteq> [] \<Longrightarrow> raised s = None \<Longrightarrow> I (step func s)"
  shows "I (walk func st)"
  using assms(1)
proof (induction "pending_size st" arbitrary: st rule: less_induct)
  case less
  show ?case
  proof (cases "all_prims st = [] \<or> raised st \<noteq> None")
    case True
    then show ?thesis using less.prems by (simp add: walk.simps)
  next
    case False
    then have running: "all_prims st \<noteq> []" "raised st = None" by auto
    have "I (step func st)" using less.prems running by (rule assms(2))
    moreover have "pending_size (step func st) < pending_size st"
      using running by (rule step_decreases)
    ultimately have "I (walk func (step func st))" by (rule less.hyps[rotated])
    with False show ?thesis by (simp add: walk.simps)
  qed
qed

lemma walk_stops: "all_prims (walk func st) = [] \<or> raised (walk func st) \<noteq> None"
  by (induction func st rule: walk.induct) (simp add: walk.simps)

text \<open>One iteration, by the way it goes.\<close>

lemma step_unfold:
  assumes "all_prims st = x # rest"
  shows "step func st =
    (case step_kind_of func x (world st) of
       Skip \<Rightarrow> st\<lparr>all_prims := rest, events := events st @ [Dequeued (pathString x) True],
                 instanced_prim_paths := instanced_prim_paths st @ [pathString x]\<rparr>
     | Raise e w \<Rightarrow> st\<lparr>all_prims := rest, world := w, raised := Some e,
                 events := events st @ [Dequeued (pathString x) False, Called (pathString x) (Inl e)]\<rparr>
     | Fail w \<Rightarrow> st\<lparr>all_prims := rest @ GetChildren x, world := w,
                 events := events st @ [Dequeued (pathString x) False, Called (pathString x) (Inr False)]\<rparr>
     | Succeed w \<Rightarrow> st\<lparr>all_prims := rest, world := w, count_success := count_success st + 1,
                 events := events st @ [Dequeued (pathString x) False, Called (pathString x) (Inr True)]\<rparr>)"
  using assms by (auto simp: step_def step_kind_of_def Let_def split: prod.splits sum.splits)

lemma pending_paths_Cons: "pending_paths (x # rest) = pathString x # descendant_paths x @ pending_paths rest"
  by (cases x) (simp add: pending_paths_def descendant_paths_def)
lemma pending_paths_enqueue: "pending_paths (rest @ GetChildren x) = pending_paths rest @ descendant_paths x"
  by (simp add: pending_paths_def descendant_paths_def)

lemma step_bookkeeping: "bookkeeping st \<Longrightarrow> all_prims st \<noteq> [] \<Longrightarrow> bookkeeping (step func st)"
  by (cases "all_prims st")
     (auto simp: step_unfold bookkeeping_def split: step_kind.splits)

text \<open>Prims under a root, and their paths.\<close>
lemma map_pathString_subtree_prims: "map pathString (subtree_prims n) = subtree_paths n"
  by (induction n) (simp add: map_concat comp_def cong: map_cong)

lemma self_in_subtree_prims: "n \<in> set (subtree_prims n)"
  by (cases n) simp

lemma child_in_subtree_prims:
  "x \<in> set (subtree_prims r) \<Longrightarrow> c \<in> set (GetChildren x) \<Longrightarrow> c \<in> set (subtree_prims r)"
proof (induction r)
  case (Prim p i cs)
  from Prim.prems(1) consider "x = Prim p i cs" | k where "k \<in> set cs" "x \<in> set (subtree_prims k)"
    by auto
  then show ?case
  proof cases
    case 1
    with Prim.prems(2) have "c \<in> set cs" by simp
    then show ?thesis using self_in_subtree_prims[of c] by auto
  next
    case 2
    then have "c \<in> set (subtree_prims k)" using Prim.IH Prim.prems(2) by blast
    with 2 show ?thesis by auto
  qed
qed

lemma unique_by_path:
  assumes "distinct (subtree_paths root)"
    and "n \<in> set (subtree_prims root)" "m \<in> set (subtree_prims root)"
    and "pathString n = pathString m"
  shows "n = m"
proof -
  have "inj_on pathString (set (subtree_prims root))"
    using assms(1) by (simp add: distinct_map flip: map_pathString_subtree_prims)
  then show ?thesis using assms(2-4) by (auto dest: inj_onD)
qed

text \<open>
  The queue holds prims under the root whose subtrees share no path with each other nor
  with what was dequeued before; and an iteration never adds a path to what was dequeued
  or can still be reached.
\<close>

lemma step_frontier_ok:
  assumes "frontier_ok root st" "all_prims st \<noteq> []"
  shows "frontier_ok root (step func st) \<and> touched (step func st) \<subseteq> touched st"
proof -
  from assms(2) obtain x rest where q: "all_prims st = x # rest" by (cases "all_prims st") auto
  have kids: "set (GetChildren x) \<subseteq> set (subtree_prims root)"
    using assms(1) q child_in_subtree_prims[of x root] by (auto simp: frontier_ok_def)
  show ?thesis
    using assms(1) kids
    by (cases "step_kind_of func x (world st)")
       (auto simp: step_unfold[OF q] frontier_ok_def touched_def q pending_paths_Cons
          pending_paths_enqueue)
qed

text \<open>
  Below a prim for which the operation returned true, and below a dequeued instance,
  nothing was dequeued and nothing can still be reached; an instance is never called.
\<close>

lemma step_faithful:
  assumes d: "distinct (subtree_paths root)"
    and f: "frontier_ok root st" and i: "faithful root st" and ne: "all_prims st \<noteq> []"
  shows "faithful root (step func st)"
proof -
  from ne obtain x rest where q: "all_prims st = x # rest" by (cases "all_prims st") auto
  have x: "x \<in> set (subtree_prims root)" using f q by (auto simp: frontier_ok_def)
  have same: "n = x" if "n \<in> set (subtree_prims root)" "pathString n = pathString x" for n
    using unique_by_path[OF d that(1) x that(2)] .
  have mono: "touched (step func st) \<subseteq> touched st"
    using step_frontier_ok[OF f ne] by simp
  have fresh: "pathString x \<notin> set (popped (events st))"
     "set (descendant_paths x) \<inter> set (popped (events st)) = {}"
     "pathString x \<notin> set (descendant_paths x)"
     "set (descendant_paths x) \<inter> set (pending_paths rest) = {}"
    using f by (auto simp: frontier_ok_def q pending_paths_Cons)
  have notcalled: "pathString x \<notin> set (called (events st))"
    using f fresh(1) by (auto simp: frontier_ok_def)
  show ?thesis
    unfolding faithful_def
  proof (intro ballI conjI impI)
    fix n assume n: "n \<in> set (subtree_prims root)"
    have old: "set (descendant_paths n) \<inter> touched (step func st) = {}"
      if "set (descendant_paths n) \<inter> touched st = {}"
      using that mono by blast
    {
      assume s: "pathString n \<in> set (succeeded (events (step func st)))"
      show "set (descendant_paths n) \<inter> touched (step func st) = {}"
      proof (cases "pathString n \<in> set (succeeded (events st))")
        case True
        then show ?thesis using i n old by (auto simp: faithful_def)
      next
        case False
        with s obtain w where k: "step_kind_of func x (world st) = Succeed w" "pathString n = pathString x"
          by (cases "step_kind_of func x (world st)") (auto simp: step_unfold[OF q] split: if_splits)
        then have "n = x" using same n by simp
        then show ?thesis using k fresh by (auto simp: step_unfold[OF q] touched_def)
      qed
    }
    {
      assume inst: "IsInstance n"
      show "pathString n \<notin> set (called (events (step func st)))"
      proof
        assume c: "pathString n \<in> set (called (events (step func st)))"
        have "pathString n \<notin> set (called (events st))" using i n inst by (auto simp: faithful_def)
        with c have "pathString n = pathString x" "step_kind_of func x (world st) \<noteq> Skip"
          by (cases "step_kind_of func x (world st)"; auto simp: step_unfold[OF q])+
        then have "n = x" "\<not> IsInstance x" using same n by (auto simp: step_kind_of_def split: if_splits)
        with inst show False by simp
      qed
    }
    {
      assume inst: "IsInstance n" and p: "pathString n \<in> set (popped (events (step func st)))"
      have "pathString n \<in> set (skipped (events (step func st)))
            \<and> set (descendant_paths n) \<inter> touched (step func st) = {}"
      proof (cases "pathString n \<in> set (popped (events st))")
        case True
        then have "pathString n \<in> set (skipped (events st))" "set (descendant_paths n) \<inter> touched st = {}"
          using i n inst by (auto simp: faithful_def)
        then show ?thesis using old
          by (cases "step_kind_of func x (world st)") (auto simp: step_unfold[OF q])
      next
        case False
        with p have "pathString n = pathString x"
          by (cases "step_kind_of func x (world st)") (auto simp: step_unfold[OF q])
        then have nx: "n = x" using same n by simp
        then have "step_kind_of func x (world st) = Skip" using inst by (simp add: step_kind_of_def)
        then show ?thesis using nx fresh by (auto simp: step_unfold[OF q] touched_def)
      qed
      then show "pathString n \<in> set (skipped (events (step func st)))"
        and "set (descendant_paths n) \<inter> touched (step func st) = {}" by simp_all
    }
  qed
qed

text \<open>The invariants hold when the walk from the root has ended.\<close>

lemma walk_from_root:
  assumes "distinct (subtree_paths root)"
  shows "frontier_ok root (walk func (initial [root] w)) \<and> faithful root (walk func (initial [root] w))"
proof (rule walk_invariant)
  show "frontier_ok root (initial [root] w) \<and> faithful root (initial [root] w)"
    using assms self_in_subtree_prims[of root]
    by (auto simp: frontier_ok_def faithful_def initial_def pending_paths_def)
next
  fix s :: "('a, 'b) loop_state"
  assume "frontier_ok root s \<and> faithful root s" "all_prims s \<noteq> []"
  then show "frontier_ok root (step func s) \<and> faithful root (step func s)"
    using step_frontier_ok[of root s func] step_faithful[OF assms, of s func] by simp
qed

lemma walk_bookkeeping: "bookkeeping (walk func (initial q w))"
proof (rule walk_invariant)
  show "bookkeeping (initial q w)" by (simp add: bookkeeping_def initial_def)
qed (rule step_bookkeeping)

lemma walk_warnings: "warnings (walk func (initial q w)) = []"
proof (rule walk_invariant)
  show "warnings (initial q w) = []" by (simp add: initial_def)
next
  fix s :: "('a, 'b) loop_state"
  assume "warnings s = []" "all_prims s \<noteq> []"
  then show "warnings (step func s) = []"
    by (cases "all_prims s"; cases "step_kind_of func (hd (all_prims s)) (world s)")
       (auto simp: step_unfold)
qed

lemma apply_nested_final:
  assumes "stage prim_path = Some root"
  shows "\<exists>ws. snd (apply_nested func name stage prim_path w) = (walk func (initial [root] w))\<lparr>warnings := ws\<rparr>"
proof -
  let ?fin = "walk func (initial [root] w)"
  have "\<exists>ws. ?fin = ?fin\<lparr>warnings := ws\<rparr>" by (rule exI[of _ "warnings ?fin"]) simp
  then show ?thesis using assms
    by (auto simp: apply_nested_def Let_def split: option.splits)
qed

text \<open>With an operation that never raises, the walk runs until the queue is empty.\<close>

lemma walk_completes:
  assumes "\<And>p w. \<exists>b w'. func p w = (Inr b, w')" and "raised st = None"
  shows "raised (walk func st) = None \<and> all_prims (walk func st) = []"
proof -
  have "raised (walk func st) = None"
  proof (rule walk_invariant)
    fix s :: "('a, 'b) loop_state"
    assume "raised s = None" "all_prims s \<noteq> []"
    moreover obtain b w' where "func (pathString (hd (all_prims s))) (world s) = (Inr b, w')"
      using assms(1) by blast
    ultimately show "raised (step func s) = None"
      by (cases "all_prims s") (auto simp: step_def Let_def)
  qed (rule assms(2))
  then show ?thesis using walk_stops[of func st] by simp
qed

subsection \<open>Facts about the Instance Fan-out\<close>

lemma rsplit_slash_Some:
  "rsplit_slash s = Some (r, a) \<longleftrightarrow> s = r @ ''/'' @ a \<and> CHR ''/'' \<notin> set a"
proof
  assume "rsplit_slash s = Some (r, a)"
  then have in_s: "CHR ''/'' \<in> set s"
    and r: "r = rev (tl (dropWhile (\<lambda>c. c \<noteq> CHR ''/'') (rev s)))"
    and a: "a = rev (takeWhile (\<lambda>c. c \<noteq> CHR ''/'') (rev s))"
    by (auto simp: rsplit_slash_def split: if_splits)
  from in_s have "dropWhile (\<lambda>c. c \<noteq> CHR ''/'') (rev s) \<noteq> []"
    by (simp add: dropWhile_eq_Nil_conv)
  then have "dropWhile (\<lambda>c. c \<noteq> CHR ''/'') (rev s) = CHR ''/'' # rev r"
    using hd_dropWhile[of "\<lambda>c. c \<noteq> CHR ''/''" "rev s"] r
    by (cases "dropWhile (\<lambda>c. c \<noteq> CHR ''/'') (rev s)") auto
  then have "rev s = rev a @ CHR ''/'' # rev r"
    using takeWhile_dropWhile_id[of "\<lambda>c. c \<noteq> CHR ''/''" "rev s"] a by simp
  then have "rev (rev s) = rev (rev a @ CHR ''/'' # rev r)" by simp
  then have "s = r @ ''/'' @ a" by simp
  moreover have "CHR ''/'' \<notin> set a"
    using a set_takeWhileD[of "CHR ''/''" "\<lambda>c. c \<noteq> CHR ''/''" "rev s"] by auto
  ultimately show "s = r @ ''/'' @ a \<and> CHR ''/'' \<notin> set a" by simp
next
  assume h: "s = r @ ''/'' @ a \<and> CHR ''/'' \<notin> set a"
  then have "rev s = rev a @ CHR ''/'' # rev r" by simp
  moreover have "takeWhile (\<lambda>c. c \<noteq> CHR ''/'') (rev a @ CHR ''/'' # rev r)
        = rev a @ takeWhile (\<lambda>c. c \<noteq> CHR ''/'') (CHR ''/'' # rev r)"
    by (rule takeWhile_append2) (use h in auto)
  moreover have "dropWhile (\<lambda>c. c \<noteq> CHR ''/'') (rev a @ CHR ''/'' # rev r)
        = dropWhile (\<lambda>c. c \<noteq> CHR ''/'') (CHR ''/'' # rev r)"
    by (rule dropWhile_append2) (use h in auto)
  ultimately have "takeWhile (\<lambda>c. c \<noteq> CHR ''/'') (rev s) = rev a"
     "dropWhile (\<lambda>c. c \<noteq> CHR ''/'') (rev s) = CHR ''/'' # rev r"
    by simp_all
  then show "rsplit_slash s = Some (r, a)" using h by (simp add: rsplit_slash_def)
qed

lemma rsplit_slash_None: "rsplit_slash s = None \<longleftrightarrow> CHR ''/'' \<notin> set s"
  by (simp add: rsplit_slash_def)

lemma newline_not_path_char: "\<not> is_path_char (CHR 0x0A)"
  by (simp add: is_path_char_def)

text \<open>
  The test of the wrapper, said without the regular expression: the root path is taken
  for a plain path exactly when, one final newline set aside, it is not empty and has
  only characters of the class.
\<close>

lemma re_match_prim_path_iff:
  "re_match_prim_path s \<longleftrightarrow> chomp s \<noteq> [] \<and> (\<forall>c \<in> set (chomp s). is_path_char c)"
proof
  assume m: "re_match_prim_path s"
  then have t: "takeWhile is_path_char s \<noteq> []"
    and d: "dropWhile is_path_char s = [] \<or> dropWhile is_path_char s = [CHR 0x0A]"
    by (simp_all add: re_match_prim_path_def at_dollar_def)
  have all_t: "\<forall>c \<in> set (takeWhile is_path_char s). is_path_char c"
    by (auto dest: set_takeWhileD)
  from d show "chomp s \<noteq> [] \<and> (\<forall>c \<in> set (chomp s). is_path_char c)"
  proof
    assume "dropWhile is_path_char s = []"
    then have "\<forall>c \<in> set s. is_path_char c" by (simp add: dropWhile_eq_Nil_conv)
    moreover from t have "s \<noteq> []" by auto
    ultimately have "s \<noteq> []" "\<forall>c \<in> set s. is_path_char c" by simp_all
    moreover from this have "last s \<noteq> CHR 0x0A"
      using newline_not_path_char last_in_set[of s] by metis
    ultimately show ?thesis by (simp add: chomp_def)
  next
    assume "dropWhile is_path_char s = [CHR 0x0A]"
    then have s: "s = takeWhile is_path_char s @ [CHR 0x0A]"
      using takeWhile_dropWhile_id[of is_path_char s] by simp
    then have "chomp s = takeWhile is_path_char s"
      by (metis butlast_snoc chomp_def last_snoc snoc_eq_iff_butlast)
    then show ?thesis using t all_t by simp
  qed
next
  assume h: "chomp s \<noteq> [] \<and> (\<forall>c \<in> set (chomp s). is_path_char c)"
  show "re_match_prim_path s"
  proof (cases "s \<noteq> [] \<and> last s = CHR 0x0A")
    case True
    then have s: "s = chomp s @ [CHR 0x0A]"
      by (simp add: chomp_def) (metis append_butlast_last_id)
    have "takeWhile is_path_char (chomp s @ [CHR 0x0A])
            = chomp s @ takeWhile is_path_char [CHR 0x0A]"
      by (rule takeWhile_append2) (use h in auto)
    moreover have "dropWhile is_path_char (chomp s @ [CHR 0x0A])
            = dropWhile is_path_char [CHR 0x0A]"
      by (rule dropWhile_append2) (use h in auto)
    ultimately have "takeWhile is_path_char s = chomp s" "dropWhile is_path_char s = [CHR 0x0A]"
      using s newline_not_path_char by simp_all
    then show ?thesis using h by (simp add: re_match_prim_path_def at_dollar_def)
  next
    case False
    then have "chomp s = s" by (auto simp: chomp_def)
    with h have "s \<noteq> []" "\<forall>c \<in> set s. is_path_char c" by simp_all
    then have "takeWhile is_path_char s = s" "dropWhile is_path_char s = []"
      by (simp_all add: takeWhile_eq_all_conv)
    moreover from this \<open>s \<noteq> []\<close> have "takeWhile is_path_char s \<noteq> []" by metis
    ultimately show ?thesis by (simp only: re_match_prim_path_def at_dollar_def) simp
  qed
qed

text \<open>
  So for a root path that does not end in a newline the resolution step runs exactly when
  the path has a character outside the class.
\<close>

lemma resolution_runs_iff:
  assumes "root_path = [] \<or> last root_path \<noteq> CHR 0x0A"
  shows "is_regex_expression root_path \<and> root_path \<noteq> []
         \<longleftrightarrow> (\<exists>c \<in> set root_path. \<not> is_path_char c)"
proof -
  from assms have "chomp root_path = root_path" by (auto simp: chomp_def)
  then show ?thesis by (auto simp: is_regex_expression_def re_match_prim_path_iff)
qed

text \<open>What the resolution does with a template path, by the three cases of lines 222 to 236.\<close>

lemma resolve_prim_paths_no_slash:
  assumes "CHR ''/'' \<notin> set prim_path"
  shows "resolve_prim_paths find_matching prim_path
           = (Inl (ValueError ''not enough values to unpack (expected 2, got 1)''), [])"
  using assms by (simp add: resolve_prim_paths_def rsplit_slash_def)

lemma resolve_prim_paths_plain:
  assumes "rsplit_slash prim_path = Some (root_path, asset_path)"
    and "\<not> is_regex_expression root_path \<or> root_path = []"
  shows "resolve_prim_paths find_matching prim_path = (Inr [root_path @ ''/'' @ asset_path], [])"
  using assms by (auto simp: resolve_prim_paths_def)

lemma resolve_prim_paths_expression:
  assumes "rsplit_slash prim_path = Some (root_path, asset_path)"
    and "is_regex_expression root_path" and "root_path \<noteq> []"
    and "find_matching [] root_path \<noteq> []"
  shows "resolve_prim_paths find_matching prim_path
           = (Inr (map (\<lambda>source_prim_path. source_prim_path @ ''/'' @ asset_path)
                     (find_matching [] root_path)),
              [FindMatchingPrimPaths root_path])"
  using assms by (simp add: resolve_prim_paths_def)

lemma str_replace_char_map:
  "str_replace_char old new s = map (\<lambda>c. if c = old then new else c) s"
  by (induction s) simp_all

lemma calls_append [simp]:
  "spawn_calls (xs @ ys) = spawn_calls xs @ spawn_calls ys"
  "clone_calls (xs @ ys) = clone_calls xs @ clone_calls ys"
  "semantic_keys (xs @ ys) = semantic_keys xs @ semantic_keys ys"
  by (simp_all add: spawn_calls_def clone_calls_def semantic_keys_def)

lemma calls_Cons [simp]:
  "spawn_calls (ev # tr) = spawned ev @ spawn_calls tr"
  "clone_calls (ev # tr) = cloned ev @ clone_calls tr"
  "semantic_keys (ev # tr) = semantic_key ev @ semantic_keys tr"
  "spawn_calls [] = []" "clone_calls [] = []" "semantic_keys [] = []"
  by (simp_all add: spawn_calls_def clone_calls_def semantic_keys_def)

lemma calls_of_tags [simp]:
  "spawn_calls (set_semantic_tags prim tags) = []"
  "clone_calls (set_semantic_tags prim tags) = []"
  by (induction prim tags rule: set_semantic_tags.induct) (simp_all add: Let_def)

lemma calls_of_activations [simp]:
  "spawn_calls (map ActivateContactSensors ps) = []"
  "clone_calls (map ActivateContactSensors ps) = []"
  "semantic_keys (map ActivateContactSensors ps) = []"
  by (induction ps) simp_all

lemma semantic_keys_of_tags:
  "semantic_keys (set_semantic_tags prim tags)
     = map (\<lambda>(t, v). str_replace_char CHR '' '' CHR ''_'' t @ ''_''
                      @ str_replace_char CHR '' '' CHR ''_'' v) tags"
  by (induction prim tags rule: set_semantic_tags.induct) (simp_all add: Let_def)

lemma resolve_prim_paths_Inr:
  assumes "resolve_prim_paths find_matching prim_path = (Inr prim_paths, tr)"
  shows "prim_paths \<noteq> [] \<and> spawn_calls tr = [] \<and> clone_calls tr = [] \<and> semantic_keys tr = []"
  using assms
  by (auto simp: resolve_prim_paths_def Let_def split: option.splits prod.splits if_splits)

lemma resolve_prim_paths_no_clone:
  assumes "resolve_prim_paths find_matching prim_path = (res, tr)"
  shows "ClonerClone src targets rp cfs \<notin> set tr" and "clone_calls tr = []"
  using assms
  by (auto simp: resolve_prim_paths_def Let_def split: option.splits prod.splits if_splits)

lemma activate_sensors_trace:
  assumes "activate_sensors find_matching cfg p0 tr = (r, tr')"
  shows "spawn_calls tr' = spawn_calls tr \<and> clone_calls tr' = clone_calls tr
       \<and> semantic_keys tr' = semantic_keys tr"
  using assms
  by (auto simp: activate_sensors_def Let_def split: attr.splits py_value.splits)

lemma post_spawn_trace_calls:
  assumes "spawn_calls tr = []" "clone_calls tr = []" "semantic_keys tr = []"
  shows "spawn_calls (post_spawn_trace cfg prim p0 tr) = [p0]"
    and "clone_calls (post_spawn_trace cfg prim p0 tr) = []"
    and "semantic_keys (post_spawn_trace cfg prim p0 tr)
           = (case semantic_tags cfg of
                Present (Some tags) \<Rightarrow> semantic_keys (set_semantic_tags prim tags)
              | _ \<Rightarrow> [])"
  using assms by (auto simp: post_spawn_trace_def split: attr.splits option.splits)

lemma no_clone_in_tags:
  "ClonerClone src targets rp cfs \<notin> set (set_semantic_tags prim tags)"
  by (induction prim tags rule: set_semantic_tags.induct) (simp_all add: Let_def)

lemma no_clone_in_post_spawn_trace:
  "ClonerClone src targets rp cfs \<in> set (post_spawn_trace cfg prim p0 tr)
   \<Longrightarrow> ClonerClone src targets rp cfs \<in> set tr"
  by (auto simp: post_spawn_trace_def no_clone_in_tags split: attr.splits option.splits)

lemma no_clone_in_activate_sensors:
  "activate_sensors find_matching cfg p0 tr = (r, tr') \<Longrightarrow> ClonerClone src targets rp cfs \<in> set tr'
   \<Longrightarrow> ClonerClone src targets rp cfs \<in> set tr"
  by (auto simp: activate_sensors_def Let_def split: attr.splits py_value.splits)

text \<open>The three ways a call of the wrapper can go.\<close>

lemma clone_unresolved:
  assumes "resolve_prim_paths find_matching prim_path = (Inl e, tr)"
  shows "clone find_matching func ver prim_path cfg = (Inl (Raised e), tr)"
  using assms by (simp add: clone_def)

lemma clone_spawn_raised:
  assumes "resolve_prim_paths find_matching prim_path = (Inr (p0 # others), tr)"
    and "func tr p0 = Inl e"
  shows "clone find_matching func ver prim_path cfg = (Inl (Propagated e), tr @ [Spawn p0])"
  using assms by (simp add: clone_def)

lemma clone_spawned:
  assumes "resolve_prim_paths find_matching prim_path = (Inr (p0 # others), tr)"
    and "func tr p0 = Inr prim"
  shows "clone find_matching func ver prim_path cfg =
     (case activate_sensors find_matching cfg p0 (post_spawn_trace cfg prim p0 tr) of
        (Inl e, tr4) \<Rightarrow> (Inl (Raised e), tr4)
      | (Inr u, tr4) \<Rightarrow>
          (Inr prim,
           if others \<noteq> []
           then tr4 @ [ClonerClone p0 others False
                         (if ver \<le> 2022 then None else Some (copy_from_source cfg))]
           else tr4))"
  using assms by (simp add: clone_def post_spawn_trace_def Let_def split: prod.splits sum.splits)

text \<open>
  A root path that the code takes for an expression and that the host matches nowhere:
  the call ends with the \<^verbatim>\<open>RuntimeError\<close> of line 232, the only call made into the
  host is the search, and the decorated function is never called.
\<close>

lemma clone_expression_without_match:
  assumes "rsplit_slash prim_path = Some (root_path, asset_path)"
    and "is_regex_expression root_path" and "root_path \<noteq> []"
    and "find_matching [] root_path = []"
  shows "fst (clone find_matching func ver prim_path cfg)
           = Inl (Raised (RuntimeError (''Unable to find source prim path: '' @ quote root_path
                    @ ''. Please create the prim before spawning.'')))
       \<and> snd (clone find_matching func ver prim_path cfg) = [FindMatchingPrimPaths root_path]
       \<and> spawn_calls (snd (clone find_matching func ver prim_path cfg)) = []"
  using assms by (simp add: clone_def resolve_prim_paths_def)

text \<open>
  The same with the pattern told by its characters: a root path with a character outside
  the class, not ending in a newline, and matched nowhere.
\<close>

lemma clone_pattern_without_match_no_final_newline:
  assumes "rsplit_slash prim_path = Some (root_path, asset_path)"
    and "\<exists>c \<in> set root_path. \<not> is_path_char c"
    and "last root_path \<noteq> CHR 0x0A"
    and "find_matching [] root_path = []"
  shows "fst (clone find_matching func ver prim_path cfg)
           = Inl (Raised (RuntimeError (''Unable to find source prim path: '' @ quote root_path
                    @ ''. Please create the prim before spawning.'')))
       \<and> snd (clone find_matching func ver prim_path cfg) = [FindMatchingPrimPaths root_path]
       \<and> spawn_calls (snd (clone find_matching func ver prim_path cfg)) = []"
proof -
  have "is_regex_expression root_path \<and> root_path \<noteq> []"
    using resolution_runs_iff[of root_path] assms(2,3) by blast
  then show ?thesis
    using clone_expression_without_match
            [where find_matching = find_matching, OF assms(1) _ _ assms(4)] by blast
qed

lemma clone_pattern_without_match_example:
  "fst (clone no_match spawn_at 2023 ''/World/Table_[0-9]/Bottle'' bottle_cfg)
     = Inl (Raised (RuntimeError (''Unable to find source prim path: ''
              @ quote ''/World/Table_[0-9]''
              @ ''. Please create the prim before spawning.'')))
   \<and> spawn_calls (snd (clone no_match spawn_at 2023 ''/World/Table_[0-9]/Bottle'' bottle_cfg)) = []"
proof -
  have h1: "rsplit_slash ''/World/Table_[0-9]/Bottle'' = Some (''/World/Table_[0-9]'', ''Bottle'')"
    by code_simp
  have h2: "\<exists>c \<in> set ''/World/Table_[0-9]''. \<not> is_path_char c" by code_simp
  have h3: "last ''/World/Table_[0-9]'' \<noteq> CHR 0x0A" by simp
  have h4: "no_match [] ''/World/Table_[0-9]'' = []" by (simp add: no_match_def)
  from clone_pattern_without_match_no_final_newline
         [where find_matching = no_match and func = spawn_at and ver = 2023 and cfg = bottle_cfg,
          OF h1 h2 h3 h4]
  show ?thesis by simp
qed

section \<open>The claims\<close>

subsection \<open>Subtree Applier\<close>

text \<open>
  C1. In a call of the wrapper on a valid root path, on a stage where paths identify
  prims (no two prims under the root share a path), let \<open>n\<close> be a prim under the root
  for which the operation returned true. Then no descendant of \<open>n\<close> was taken from the
  queue, none was passed to the operation, and none is waiting in the queue when the call
  ends (also when it ends by an exception of the operation): the children of \<open>n\<close> were
  never enqueued. The path of \<open>n\<close> is among the counted successes, and
  \<open>count_success\<close> is the number of calls that returned true.
\<close>

theorem apply_nested_prunes_below_success:
  assumes "stage prim_path = Some root"
    and "distinct (subtree_paths root)"
    and "n \<in> set (subtree_prims root)"
    and "Called (pathString n) (Inr True)
           \<in> set (events (snd (apply_nested func name stage prim_path w)))"
  shows "(\<forall>d \<in> set (descendant_paths n).
            (\<forall>b. Dequeued d b \<notin> set (events (snd (apply_nested func name stage prim_path w))))
          \<and> (\<forall>r. Called d r \<notin> set (events (snd (apply_nested func name stage prim_path w))))
          \<and> d \<notin> set (pending_paths (all_prims (snd (apply_nested func name stage prim_path w)))))
       \<and> pathString n \<in> set (succeeded (events (snd (apply_nested func name stage prim_path w))))
       \<and> count_success (snd (apply_nested func name stage prim_path w))
           = length (succeeded (events (snd (apply_nested func name stage prim_path w))))"
proof -
  let ?fin = "walk func (initial [root] w)"
  obtain ws where fin: "snd (apply_nested func name stage prim_path w) = ?fin\<lparr>warnings := ws\<rparr>"
    using apply_nested_final[of stage prim_path root func name w] assms(1) by blast
  have inv: "frontier_ok root ?fin" "faithful root ?fin"
    using walk_from_root[OF assms(2), of func w] by simp_all
  have s: "pathString n \<in> set (succeeded (events ?fin))"
    using assms(4) by (simp add: fin succeeded_iff)
  then have "set (descendant_paths n) \<inter> touched ?fin = {}"
    using inv(2) assms(3) by (auto simp: faithful_def)
  moreover have "set (called (events ?fin)) \<subseteq> set (popped (events ?fin))"
    using inv(1) by (simp add: frontier_ok_def)
  ultimately have "\<forall>d \<in> set (descendant_paths n). d \<notin> set (popped (events ?fin))
      \<and> d \<notin> set (called (events ?fin)) \<and> d \<notin> set (pending_paths (all_prims ?fin))"
    by (auto simp: touched_def)
  moreover have "count_success ?fin = length (succeeded (events ?fin))"
    using walk_bookkeeping[of func "[root]" w] by (simp add: bookkeeping_def)
  ultimately show ?thesis using s by (simp add: fin popped_iff called_iff)
qed

theorem apply_nested_prunes_below_success_witness:
  "Called ''/A/B'' (Inr True) \<in> set (events (snd (apply_nested bind_on_B ''bind'' demo_stage ''/A'' 0)))
   \<and> Dequeued ''/A/B/C'' False \<notin> set (events (snd (apply_nested bind_on_B ''bind'' demo_stage ''/A'' 0)))
   \<and> Called ''/A/B/C'' (Inr False) \<notin> set (events (snd (apply_nested bind_on_B ''bind'' demo_stage ''/A'' 0)))
   \<and> count_success (snd (apply_nested bind_on_B ''bind'' demo_stage ''/A'' 0)) = 1"
proof -
  let ?n = "Prim ''/A/B'' False [Prim ''/A/B/C'' False []]"
  have h1: "demo_stage ''/A'' = Some demo_root" by (simp add: demo_stage_def)
  have h2: "distinct (subtree_paths demo_root)" by (simp add: demo_root_def)
  have h3: "?n \<in> set (subtree_prims demo_root)" by (simp add: demo_root_def)
  have h4: "Called (pathString ?n) (Inr True)
              \<in> set (events (snd (apply_nested bind_on_B ''bind'' demo_stage ''/A'' 0)))"
    by code_simp
  have d: "''/A/B/C'' \<in> set (descendant_paths ?n)" by (simp add: descendant_paths_def)
  have s: "succeeded (events (snd (apply_nested bind_on_B ''bind'' demo_stage ''/A'' 0))) = [''/A/B'']"
    by code_simp
  from apply_nested_prunes_below_success
         [where stage = demo_stage and prim_path = "''/A''" and root = demo_root and n = ?n
            and func = bind_on_B and name = "''bind''" and w = 0, OF h1 h2 h3 h4] d s h4
  show ?thesis by auto
qed

text \<open>
  C2. In a call of the wrapper on a valid root path, on a stage where paths identify
  prims, let \<open>n\<close> be an instance prim under the root that was taken from the queue. Then
  \<open>n\<close> was never passed to the operation, its path is in \<open>instanced_prim_paths\<close>, and no
  descendant of \<open>n\<close> was taken from the queue, passed to the operation or left waiting
  in the queue: its children were never enqueued. \<open>instanced_prim_paths\<close> is the list of
  the dequeued instance prims, in the order of the walk.
\<close>

theorem apply_nested_skips_instances:
  assumes "stage prim_path = Some root"
    and "distinct (subtree_paths root)"
    and "n \<in> set (subtree_prims root)" and "IsInstance n"
    and "Dequeued (pathString n) b \<in> set (events (snd (apply_nested func name stage prim_path w)))"
  shows "(\<forall>r. Called (pathString n) r \<notin> set (events (snd (apply_nested func name stage prim_path w))))
       \<and> pathString n \<in> set (instanced_prim_paths (snd (apply_nested func name stage prim_path w)))
       \<and> instanced_prim_paths (snd (apply_nested func name stage prim_path w))
           = skipped (events (snd (apply_nested func name stage prim_path w)))
       \<and> (\<forall>d \<in> set (descendant_paths n).
            (\<forall>b. Dequeued d b \<notin> set (events (snd (apply_nested func name stage prim_path w))))
          \<and> (\<forall>r. Called d r \<notin> set (events (snd (apply_nested func name stage prim_path w))))
          \<and> d \<notin> set (pending_paths (all_prims (snd (apply_nested func name stage prim_path w)))))"
proof -
  let ?fin = "walk func (initial [root] w)"
  obtain ws where fin: "snd (apply_nested func name stage prim_path w) = ?fin\<lparr>warnings := ws\<rparr>"
    using apply_nested_final[of stage prim_path root func name w] assms(1) by blast
  have inv: "frontier_ok root ?fin" "faithful root ?fin"
    using walk_from_root[OF assms(2), of func w] by simp_all
  have book: "instanced_prim_paths ?fin = skipped (events ?fin)"
    using walk_bookkeeping[of func "[root]" w] by (simp add: bookkeeping_def)
  have p: "pathString n \<in> set (popped (events ?fin))"
    using assms(5) by (auto simp: fin popped_iff)
  have a: "pathString n \<notin> set (called (events ?fin))"
    and s: "pathString n \<in> set (skipped (events ?fin))"
    and t: "set (descendant_paths n) \<inter> touched ?fin = {}"
    using inv(2) assms(3,4) p by (auto simp: faithful_def)
  have sub: "set (called (events ?fin)) \<subseteq> set (popped (events ?fin))"
    using inv(1) by (simp add: frontier_ok_def)
  have "\<forall>d \<in> set (descendant_paths n). d \<notin> set (popped (events ?fin))
      \<and> d \<notin> set (called (events ?fin)) \<and> d \<notin> set (pending_paths (all_prims ?fin))"
    using t sub by (auto simp: touched_def)
  then show ?thesis using a s book by (simp add: fin popped_iff called_iff)
qed

theorem apply_nested_skips_instances_witness:
  "Dequeued ''/A/D'' True \<in> set (events (snd (apply_nested bind_on_B ''bind'' demo_stage ''/A'' 0)))
   \<and> Called ''/A/D'' (Inr False) \<notin> set (events (snd (apply_nested bind_on_B ''bind'' demo_stage ''/A'' 0)))
   \<and> instanced_prim_paths (snd (apply_nested bind_on_B ''bind'' demo_stage ''/A'' 0)) = [''/A/D'']
   \<and> Dequeued ''/A/D/E'' False \<notin> set (events (snd (apply_nested bind_on_B ''bind'' demo_stage ''/A'' 0)))"
proof -
  let ?n = "Prim ''/A/D'' True [Prim ''/A/D/E'' False []]"
  have h1: "demo_stage ''/A'' = Some demo_root" by (simp add: demo_stage_def)
  have h2: "distinct (subtree_paths demo_root)" by (simp add: demo_root_def)
  have h3: "?n \<in> set (subtree_prims demo_root)" by (simp add: demo_root_def)
  have h4: "IsInstance ?n" by simp
  have h5: "Dequeued (pathString ?n) True
              \<in> set (events (snd (apply_nested bind_on_B ''bind'' demo_stage ''/A'' 0)))"
    by code_simp
  have d: "''/A/D/E'' \<in> set (descendant_paths ?n)" by (simp add: descendant_paths_def)
  have s: "skipped (events (snd (apply_nested bind_on_B ''bind'' demo_stage ''/A'' 0))) = [''/A/D'']"
    by code_simp
  from apply_nested_skips_instances
         [where stage = demo_stage and prim_path = "''/A''" and root = demo_root and n = ?n
            and b = True and func = bind_on_B and name = "''bind''" and w = 0,
          OF h1 h2 h3 h4 h5] d s h5
  show ?thesis by auto
qed

text \<open>
  C6. In a call of the wrapper on a valid root path whose walk runs to its end (the
  operation never raised) with a success count of zero, the call returns normally, the
  queue is empty, and exactly one warning is logged: it names the function, the root path
  given, and \<open>instanced_prim_paths\<close>, which is the full list of the instance prims the
  walk skipped.
\<close>

theorem apply_nested_warns_on_zero_success:
  assumes "stage prim_path = Some root"
    and "raised (snd (apply_nested func name stage prim_path w)) = None"
    and "count_success (snd (apply_nested func name stage prim_path w)) = 0"
  shows "fst (apply_nested func name stage prim_path w) = Inr ()
       \<and> all_prims (snd (apply_nested func name stage prim_path w)) = []
       \<and> warnings (snd (apply_nested func name stage prim_path w))
           = [CouldNotPerform name prim_path
                (instanced_prim_paths (snd (apply_nested func name stage prim_path w)))]
       \<and> instanced_prim_paths (snd (apply_nested func name stage prim_path w))
           = skipped (events (snd (apply_nested func name stage prim_path w)))"
proof -
  let ?fin = "walk func (initial [root] w)"
  obtain ws where fin: "snd (apply_nested func name stage prim_path w) = ?fin\<lparr>warnings := ws\<rparr>"
    using apply_nested_final[of stage prim_path root func name w] assms(1) by blast
  have r: "raised ?fin = None" and c: "count_success ?fin = 0"
    using assms(2,3) by (simp_all add: fin)
  have q: "all_prims ?fin = []" using walk_stops[of func "initial [root] w"] r by simp
  have book: "instanced_prim_paths ?fin = skipped (events ?fin)"
    using walk_bookkeeping[of func "[root]" w] by (simp add: bookkeeping_def)
  show ?thesis
    using assms(1) r c q book walk_warnings[of func "[root]" w]
    by (simp add: apply_nested_def Let_def)
qed

theorem apply_nested_warns_on_zero_success_witness:
  "fst (apply_nested bind_nowhere ''bind'' demo_stage ''/A'' 0) = Inr ()
   \<and> warnings (snd (apply_nested bind_nowhere ''bind'' demo_stage ''/A'' 0))
       = [CouldNotPerform ''bind'' ''/A'' [''/A/D'']]"
proof -
  have h1: "demo_stage ''/A'' = Some demo_root" by (simp add: demo_stage_def)
  have h2: "raised (snd (apply_nested bind_nowhere ''bind'' demo_stage ''/A'' 0)) = None"
    by code_simp
  have h3: "count_success (snd (apply_nested bind_nowhere ''bind'' demo_stage ''/A'' 0)) = 0"
    by code_simp
  have s: "instanced_prim_paths (snd (apply_nested bind_nowhere ''bind'' demo_stage ''/A'' 0)) = [''/A/D'']"
    by code_simp
  from apply_nested_warns_on_zero_success
         [where stage = demo_stage and prim_path = "''/A''" and root = demo_root
            and func = bind_nowhere and name = "''bind''" and w = 0, OF h1 h2 h3] s
  show ?thesis by simp
qed

subsection \<open>Instance Fan-out\<close>



text \<open>
  C4, at the template path made of \<^verbatim>\<open>/World\<close>, a newline, and \<^verbatim>\<open>/Bottle\<close>, on a host that
  matches the root path nowhere. The root path holds a newline, a character outside the
  class, so it is a pattern, and it resolves to no prim path; yet the call does not fail:
  the expression of line 225 matches the root path, no search is made, no
  \<^verbatim>\<open>RuntimeError\<close> is raised, the decorated function is called at the template path
  itself, and the call returns the prim it spawned.
\<close>

theorem clone_unmatched_root_path_ending_in_newline_is_spawned:
  "rsplit_slash (''/World'' @ [CHR 0x0A] @ ''/Bottle'') = Some (''/World'' @ [CHR 0x0A], ''Bottle'')
   \<and> CHR 0x0A \<in> set (''/World'' @ [CHR 0x0A])
   \<and> \<not> is_path_char (CHR 0x0A)
   \<and> no_match [] (''/World'' @ [CHR 0x0A]) = []
   \<and> fst (clone no_match spawn_at 2023 (''/World'' @ [CHR 0x0A] @ ''/Bottle'') bottle_cfg)
       = Inr (''/World'' @ [CHR 0x0A] @ ''/Bottle'')
   \<and> spawn_calls (snd (clone no_match spawn_at 2023 (''/World'' @ [CHR 0x0A] @ ''/Bottle'') bottle_cfg))
       = [''/World'' @ [CHR 0x0A] @ ''/Bottle'']
   \<and> FindMatchingPrimPaths (''/World'' @ [CHR 0x0A])
       \<notin> set (snd (clone no_match spawn_at 2023 (''/World'' @ [CHR 0x0A] @ ''/Bottle'') bottle_cfg))"
  by code_simp

text \<open>
  C5, at the template path made of \<^verbatim>\<open>/World\<close>, a newline, and \<^verbatim>\<open>/Bottle\<close>. The root path
  holds a newline, which is outside the class of letters, digits, underscore and slash;
  yet the expression of line 225 matches it, the root path is taken for a plain path and
  used as it is, no search is made, and the decorated function is called on a path that a
  search would not have found.
\<close>

theorem clone_root_path_ending_in_newline_is_not_resolved:
  "CHR 0x0A \<in> set (''/World'' @ [CHR 0x0A])
   \<and> \<not> is_path_char (CHR 0x0A)
   \<and> rsplit_slash (''/World'' @ [CHR 0x0A] @ ''/Bottle'') = Some (''/World'' @ [CHR 0x0A], ''Bottle'')
   \<and> \<not> is_regex_expression (''/World'' @ [CHR 0x0A])
   \<and> no_match [] (''/World'' @ [CHR 0x0A]) = []
   \<and> clone no_match spawn_at 2023 (''/World'' @ [CHR 0x0A] @ ''/Bottle'') plain_cfg
       = (Inr (''/World'' @ [CHR 0x0A] @ ''/Bottle''),
          [Spawn (''/World'' @ [CHR 0x0A] @ ''/Bottle'')])"
  by code_simp

text \<open>
  C7. In a call of the wrapper that reaches the semantic tags (the template path resolved
  and the decorated function returned a prim) with the list \<open>tags\<close> of pairs, the
  semantics API is applied once for each pair, in order, under the instance name made of
  the category with every space turned into an underscore, an underscore, and the value
  with every space turned into an underscore.
\<close>

theorem clone_semantic_tag_keys:
  assumes "resolve_prim_paths find_matching prim_path = (Inr prim_paths, tr)"
    and "func tr (hd prim_paths) = Inr prim"
    and "semantic_tags cfg = Present (Some tags)"
  shows "semantic_keys (snd (clone find_matching func ver prim_path cfg))
           = map (\<lambda>(category, val).
                    map (\<lambda>c. if c = CHR '' '' then CHR ''_'' else c) category @ ''_''
                    @ map (\<lambda>c. if c = CHR '' '' then CHR ''_'' else c) val) tags"
proof -
  from resolve_prim_paths_Inr[OF assms(1)] obtain p0 others
    where ps: "prim_paths = p0 # others" and tr: "spawn_calls tr = []" "clone_calls tr = []"
      "semantic_keys tr = []"
    by (cases prim_paths) auto
  have r: "resolve_prim_paths find_matching prim_path = (Inr (p0 # others), tr)"
    using assms(1) ps by simp
  have f: "func tr p0 = Inr prim" using assms(2) ps by simp
  obtain r4 tr4
    where act: "activate_sensors find_matching cfg p0 (post_spawn_trace cfg prim p0 tr) = (r4, tr4)"
    by (cases "activate_sensors find_matching cfg p0 (post_spawn_trace cfg prim p0 tr)") auto
  have "semantic_keys tr4 = semantic_keys (set_semantic_tags prim tags)"
    using activate_sensors_trace[OF act] post_spawn_trace_calls(3)[OF tr, of cfg prim p0] assms(3)
    by simp
  moreover have "semantic_keys (snd (clone find_matching func ver prim_path cfg)) = semantic_keys tr4"
    using act by (cases r4) (auto simp: clone_spawned[where func = func, OF r f])
  ultimately show ?thesis by (simp add: semantic_keys_of_tags str_replace_char_map)
qed

theorem clone_semantic_tag_keys_witness:
  "semantic_keys (snd (clone three_tables spawn_at 2023 ''/World/Table_[0-9]/Bottle'' bottle_cfg))
     = [''object_type_soda_can'']"
proof -
  have h1: "(resolve_prim_paths three_tables ''/World/Table_[0-9]/Bottle'')
           = (Inr [''/World/Table_0/Bottle'', ''/World/Table_1/Bottle'', ''/World/Table_2/Bottle''],
              [FindMatchingPrimPaths ''/World/Table_[0-9]''])"
    by code_simp
  have h2: "spawn_at [FindMatchingPrimPaths ''/World/Table_[0-9]'']
              (hd [''/World/Table_0/Bottle'', ''/World/Table_1/Bottle'', ''/World/Table_2/Bottle''])
            = Inr ''/World/Table_0/Bottle''"
    by (simp add: spawn_at_def)
  have h3: "semantic_tags bottle_cfg = Present (Some [(''object type'', ''soda can'')])"
    by (simp add: bottle_cfg_def)
  from clone_semantic_tag_keys[where func = spawn_at and ver = 2023, OF h1 h2 h3]
  show ?thesis by simp
qed

text \<open>
  C8. Every call of the clone facility made by the wrapper, in any call and for any
  version of the host, has \<^verbatim>\<open>replicate_physics\<close> false; \<^verbatim>\<open>copy_from_source\<close> is left out
  for a major version up to 2022 and is the configuration's value after that.
\<close>

theorem clone_never_replicates_physics:
  assumes "ClonerClone src targets replicate_physics cfs
             \<in> set (snd (clone find_matching func ver prim_path cfg))"
  shows "replicate_physics = False
       \<and> cfs = (if ver \<le> 2022 then None else Some (copy_from_source cfg))"
proof (cases "resolve_prim_paths find_matching prim_path")
  case (Pair res tr)
  have no_tr: "ClonerClone src targets replicate_physics cfs \<notin> set tr"
    using Pair by (rule resolve_prim_paths_no_clone)
  show ?thesis
  proof (cases res)
    case (Inl e)
    then show ?thesis using assms Pair no_tr by (simp add: clone_unresolved)
  next
    case (Inr prim_paths)
    with Pair resolve_prim_paths_Inr[of find_matching prim_path prim_paths tr] obtain p0 others
      where r: "resolve_prim_paths find_matching prim_path = (Inr (p0 # others), tr)"
      by (cases prim_paths) auto
    show ?thesis
    proof (cases "func tr p0")
      case (Inl e)
      then show ?thesis using assms no_tr by (simp add: clone_spawn_raised[where func = func, OF r])
    next
      case (Inr prim)
      obtain r4 tr4
        where act: "activate_sensors find_matching cfg p0 (post_spawn_trace cfg prim p0 tr) = (r4, tr4)"
        by (cases "activate_sensors find_matching cfg p0 (post_spawn_trace cfg prim p0 tr)") auto
      have "ClonerClone src targets replicate_physics cfs \<notin> set tr4"
      proof
        assume "ClonerClone src targets replicate_physics cfs \<in> set tr4"
        then have "ClonerClone src targets replicate_physics cfs
                     \<in> set (post_spawn_trace cfg prim p0 tr)"
          by (rule no_clone_in_activate_sensors[OF act])
        then have "ClonerClone src targets replicate_physics cfs \<in> set tr"
          by (rule no_clone_in_post_spawn_trace)
        with no_tr show False by simp
      qed
      then show ?thesis using assms act
        by (cases r4) (auto simp: clone_spawned[where func = func, OF r Inr] split: if_splits)
    qed
  qed
qed

theorem clone_never_replicates_physics_witness:
  "ClonerClone ''/World/Table_0/Bottle'' [''/World/Table_1/Bottle'', ''/World/Table_2/Bottle'']
       False None
     \<in> set (snd (clone three_tables spawn_at 2022 ''/World/Table_[0-9]/Bottle'' bottle_cfg))
   \<and> ClonerClone ''/World/Table_0/Bottle'' [''/World/Table_1/Bottle'', ''/World/Table_2/Bottle'']
       False (Some True)
     \<in> set (snd (clone three_tables spawn_at 2023 ''/World/Table_[0-9]/Bottle'' bottle_cfg))"
proof -
  have old: "ClonerClone ''/World/Table_0/Bottle'' [''/World/Table_1/Bottle'', ''/World/Table_2/Bottle'']
       False None
     \<in> set (snd (clone three_tables spawn_at 2022 ''/World/Table_[0-9]/Bottle'' bottle_cfg))"
    by code_simp
  have new: "ClonerClone ''/World/Table_0/Bottle'' [''/World/Table_1/Bottle'', ''/World/Table_2/Bottle'']
       False (Some True)
     \<in> set (snd (clone three_tables spawn_at 2023 ''/World/Table_[0-9]/Bottle'' bottle_cfg))"
    by code_simp
  from clone_never_replicates_physics[OF old] clone_never_replicates_physics[OF new] old new
  show ?thesis by simp
qed

text \<open>
  C9. In a call of the wrapper whose configuration has \<^verbatim>\<open>activate_contact_sensors\<close> with
  a value that is neither a boolean nor a string: the call never returns a prim, the
  clone facility is never called, and once the selector is looked at (the template path
  resolved and the decorated function returned a prim) the call fails with the
  \<^verbatim>\<open>ValueError\<close> of line 268.
\<close>

theorem clone_rejects_unsupported_selector:
  assumes "activate_contact_sensors cfg = Present v"
    and "\<forall>b. v \<noteq> PyBool b" and "\<forall>s. v \<noteq> PyStr s"
  shows "(\<exists>e. fst (clone find_matching func ver prim_path cfg) = Inl e)
       \<and> clone_calls (snd (clone find_matching func ver prim_path cfg)) = []
       \<and> (\<forall>prim_paths tr prim.
            resolve_prim_paths find_matching prim_path = (Inr prim_paths, tr) \<longrightarrow>
            func tr (hd prim_paths) = Inr prim \<longrightarrow>
            fst (clone find_matching func ver prim_path cfg) = Inl (Raised (ValueError [])))"
proof -
  have act: "activate_sensors find_matching cfg p0 t = (Inl (ValueError []), t)" for p0 t
    using assms by (cases v) (auto simp: activate_sensors_def)
  show ?thesis
  proof (cases "resolve_prim_paths find_matching prim_path")
    case (Pair res tr)
    show ?thesis
    proof (cases res)
      case (Inl e)
      moreover have "clone_calls tr = []"
        using Pair by (rule resolve_prim_paths_no_clone)
      ultimately show ?thesis using Pair by (simp add: clone_unresolved)
    next
      case (Inr prim_paths)
      with Pair resolve_prim_paths_Inr[of find_matching prim_path prim_paths tr] obtain p0 others
        where ps: "prim_paths = p0 # others"
          and r: "resolve_prim_paths find_matching prim_path = (Inr (p0 # others), tr)"
          and tr: "spawn_calls tr = []" "clone_calls tr = []" "semantic_keys tr = []"
        by (cases prim_paths) auto
      show ?thesis
      proof (cases "func tr p0")
        case (Inl e)
        then show ?thesis using r tr by (simp add: clone_spawn_raised[where func = func, OF r])
      next
        case (Inr prim)
        show ?thesis using r tr Inr act post_spawn_trace_calls(2)[OF tr, of cfg prim p0]
          by (simp add: clone_spawned[where func = func, OF r Inr])
      qed
    qed
  qed
qed

theorem clone_rejects_unsupported_selector_witness:
  "fst (clone no_match spawn_at 2023 ''/World/Bottle'' bad_selector_cfg)
     = Inl (Raised (ValueError []))
   \<and> clone_calls (snd (clone no_match spawn_at 2023 ''/World/Bottle'' bad_selector_cfg)) = []"
proof -
  have h1: "activate_contact_sensors bad_selector_cfg = Present (PyInt 1)"
    by (simp add: bad_selector_cfg_def)
  have h2: "\<forall>b. PyInt 1 \<noteq> PyBool b" and h3: "\<forall>s. PyInt 1 \<noteq> PyStr s" by simp_all
  have r: "(resolve_prim_paths no_match ''/World/Bottle'')
           = (Inr [''/World/Bottle''], [])"
    by code_simp
  have f: "spawn_at [] (hd [''/World/Bottle'']) = Inr ''/World/Bottle''"
    by (simp add: spawn_at_def)
  from clone_rejects_unsupported_selector[OF h1 h2 h3, of no_match spawn_at 2023 "''/World/Bottle''"]
       r f
  show ?thesis by blast
qed

subsection \<open>Attribute setters\<close>

text \<open>
  C10. Called with the value \<^verbatim>\<open>None\<close>, both attribute setters return at once: the result
  is a normal return and the schema, the prim, the command log and the error log are
  exactly what they were, for every attribute name, every \<^verbatim>\<open>camel_case\<close> flag and every
  \<^verbatim>\<open>to_camel_case\<close>.
\<close>

theorem safe_set_attribute_None_is_noop:
  "safe_set_attribute_on_usd_schema to_cc name PyNone camel_case ws = (Inr (), ws)
   \<and> safe_set_attribute_on_usd_prim to_cc py_str name PyNone camel_case wp = (Inr (), wp)"
  by (simp add: safe_set_attribute_on_usd_schema_def safe_set_attribute_on_usd_prim_def)

end
